theory Spec2Isabelle
  imports Main "HOL-Library.Word"
begin

section \<open>The buffer cache of kernel/bio.c\<close>

text \<open>
  A shallow embedding of \<^verbatim>\<open>src/kernel/bio.c\<close>: the global \<^verbatim>\<open>bcache\<close> (an array of
  \<^verbatim>\<open>struct buf\<close> and the list sentinel \<^verbatim>\<open>bcache.head\<close>) is a store from pointers to
  buffers, every function of the file is a function on that store, and the two loops of
  \<^verbatim>\<open>bget\<close> are recursive functions that follow the \<^verbatim>\<open>next\<close> and \<^verbatim>\<open>prev\<close> fields.
\<close>

subsection \<open>Data\<close>

type_synonym pid = nat
type_synonym uint = "32 word"
type_synonym uchar = "8 word"

text \<open>
  A \<^verbatim>\<open>struct buf *\<close>: the address of the sentinel \<^verbatim>\<open>bcache.head\<close>, the address of
  \<^verbatim>\<open>bcache.buf[i]\<close>, or the null pointer that static storage holds before \<^verbatim>\<open>binit\<close>.
  The store is total, so the cell at \<open>Null\<close> and the cells past the array exist in the
  model; the list invariant \<open>ring\<close> below keeps every traversal on the array and the
  sentinel.
\<close>

datatype ptr = Null | Head | Buf nat

text \<open>
  Modelled from the spec: \<^verbatim>\<open>struct buf\<close> is declared in \<^verbatim>\<open>buf.h\<close>, which is not among
  the sources. The fields are the ones \<^verbatim>\<open>bio.c\<close> uses, with the types the spec's data
  model gives them: \<open>valid\<close> is a flag, \<open>dev\<close> and \<open>blockno\<close> have the type \<^verbatim>\<open>uint\<close> of
  \<^verbatim>\<open>bget\<close>'s parameters, \<open>refcnt\<close> is a count (an unbounded integer here, so that a
  decrement below zero shows as a negative value), \<open>data\<close> is the payload. The sleep lock
  (\<^verbatim>\<open>sleeplock.h\<close>, also absent) is the process that holds it, if any.
\<close>

record buf =
  valid :: bool
  dev :: uint
  blockno :: uint
  lock :: "pid option"
  refcnt :: int
  prev :: ptr
  "next" :: ptr
  data :: "uchar list"

text \<open>
  The state: \<open>mem\<close> is \<^verbatim>\<open>bcache.buf\<close> and \<^verbatim>\<open>bcache.head\<close>, addressed by pointer; \<open>disk\<close>
  is the contents of the devices; \<open>xfers\<close> records every call of \<^verbatim>\<open>virtio_disk_rw\<close>
  (the buffer and the write flag), oldest first. \<^verbatim>\<open>bcache.lock\<close> is not a field: the
  code between \<^verbatim>\<open>acquire(&bcache.lock)\<close> and \<^verbatim>\<open>release(&bcache.lock)\<close> is one atomic
  step of the model.
\<close>

record bcache =
  mem :: "ptr \<Rightarrow> buf"
  disk :: "uint \<times> uint \<Rightarrow> uchar list"
  xfers :: "(ptr \<times> bool) list"

text \<open>
  How a call ends: it returns a value, or the caller goes to sleep in \<^verbatim>\<open>acquiresleep\<close>
  waiting for the lock of a buffer, or the kernel stops in \<^verbatim>\<open>panic\<close>. Each carries the
  state at that point.
\<close>

datatype 'a outcome = Returns 'a bcache | Sleeps ptr bcache | Panics string bcache

fun state_of :: "'a outcome \<Rightarrow> bcache" where
  "state_of (Returns v s) = s"
| "state_of (Sleeps b s) = s"
| "state_of (Panics m s) = s"

subsection \<open>The collaborators\<close>

text \<open>
  Modelled from the spec: the sleep lock (\<^verbatim>\<open>sleeplock.c\<close>) and the disk driver
  (\<^verbatim>\<open>virtio_disk.c\<close>) are not among the sources. The spec gives the lock a blocking
  acquire, a release and a held-by-caller test, and the driver one synchronous transfer
  that populates the payload from the block the buffer names, or flushes it there.
\<close>

definition upd :: "ptr \<Rightarrow> (buf \<Rightarrow> buf) \<Rightarrow> bcache \<Rightarrow> bcache" where
  "upd b f s = s\<lparr>mem := (mem s)(b := f (mem s b))\<rparr>"

definition holdingsleep :: "pid \<Rightarrow> ptr \<Rightarrow> bcache \<Rightarrow> bool" where
  "holdingsleep p b s = (lock (mem s b) = Some p)"

definition acquiresleep :: "pid \<Rightarrow> ptr \<Rightarrow> bcache \<Rightarrow> ptr outcome" where
  "acquiresleep p b s =
     (if lock (mem s b) = None then Returns b (upd b (\<lambda>c. c\<lparr>lock := Some p\<rparr>) s)
      else Sleeps b s)"

definition releasesleep :: "ptr \<Rightarrow> bcache \<Rightarrow> bcache" where
  "releasesleep b s = upd b (\<lambda>c. c\<lparr>lock := None\<rparr>) s"

definition virtio_disk_rw :: "ptr \<Rightarrow> bool \<Rightarrow> bcache \<Rightarrow> bcache" where
  "virtio_disk_rw b w s =
     (let c = mem s b; k = (dev c, blockno c) in
      (if w then s\<lparr>disk := (disk s)(k := data c)\<rparr>
       else upd b (\<lambda>c. c\<lparr>data := disk s k\<rparr>) s)
      \<lparr>xfers := xfers s @ [(b, w)]\<rparr>)"

subsection \<open>binit\<close>

text \<open>
  Static storage is zero before \<^verbatim>\<open>binit\<close> runs. \<^verbatim>\<open>NBUF\<close> (\<^verbatim>\<open>param.h\<close>) and the payload
  size \<^verbatim>\<open>BSIZE\<close> (\<^verbatim>\<open>fs.h\<close>) are not among the sources: they are parameters.
\<close>

definition zero_buf :: "nat \<Rightarrow> buf" where
  "zero_buf bsize =
     \<lparr>valid = False, dev = 0, blockno = 0, lock = None, refcnt = 0,
      prev = Null, next = Null, data = replicate bsize 0\<rparr>"

definition boot :: "nat \<Rightarrow> (uint \<times> uint \<Rightarrow> uchar list) \<Rightarrow> bcache" where
  "boot bsize d = \<lparr>mem = (\<lambda>_. zero_buf bsize), disk = d, xfers = []\<rparr>"

text \<open>The body of the loop of \<^verbatim>\<open>binit\<close>, statement by statement, for \<^verbatim>\<open>b = &bcache.buf[i]\<close>.\<close>

definition binit_body :: "ptr \<Rightarrow> bcache \<Rightarrow> bcache" where
  "binit_body b s0 =
     (let s1 = upd b (\<lambda>c. c\<lparr>next := next (mem s0 Head)\<rparr>) s0;
          s2 = upd b (\<lambda>c. c\<lparr>prev := Head\<rparr>) s1;
          s3 = upd b (\<lambda>c. c\<lparr>lock := None\<rparr>) s2;
          s4 = upd (next (mem s3 Head)) (\<lambda>c. c\<lparr>prev := b\<rparr>) s3
      in upd Head (\<lambda>c. c\<lparr>next := b\<rparr>) s4)"

definition binit :: "nat \<Rightarrow> bcache \<Rightarrow> bcache" where
  "binit nbuf s0 =
     (let s1 = upd Head (\<lambda>c. c\<lparr>prev := Head\<rparr>) s0;
          s2 = upd Head (\<lambda>c. c\<lparr>next := Head\<rparr>) s1
      in fold (\<lambda>i. binit_body (Buf i)) [0..<nbuf] s2)"

subsection \<open>bget\<close>

text \<open>
  The first loop: from \<^verbatim>\<open>bcache.head.next\<close> along \<^verbatim>\<open>next\<close> until the sentinel, stopping
  at the first buffer that holds the block. The second: from \<^verbatim>\<open>bcache.head.prev\<close> along
  \<^verbatim>\<open>prev\<close>, stopping at the first buffer with \<^verbatim>\<open>refcnt == 0\<close>. The inner \<open>None\<close> is
  the loop running to its end; the outer \<open>None\<close> is a loop that never ends.
\<close>

partial_function (option) scan_cached :: "(ptr \<Rightarrow> buf) \<Rightarrow> uint \<Rightarrow> uint \<Rightarrow> ptr \<Rightarrow> ptr option option" where
  "scan_cached h d bn b =
     (if b = Head then Some None
      else if dev (h b) = d \<and> blockno (h b) = bn then Some (Some b)
      else scan_cached h d bn (next (h b)))"

partial_function (option) scan_free :: "(ptr \<Rightarrow> buf) \<Rightarrow> ptr \<Rightarrow> ptr option option" where
  "scan_free h b =
     (if b = Head then Some None
      else if refcnt (h b) = 0 then Some (Some b)
      else scan_free h (prev (h b)))"

definition bget :: "pid \<Rightarrow> uint \<Rightarrow> uint \<Rightarrow> bcache \<Rightarrow> ptr outcome option" where
  "bget p d bn s =
     (case scan_cached (mem s) d bn (next (mem s Head)) of
        None \<Rightarrow> None
      | Some (Some b) \<Rightarrow>
          Some (acquiresleep p b (upd b (\<lambda>c. c\<lparr>refcnt := refcnt c + 1\<rparr>) s))
      | Some None \<Rightarrow>
          (case scan_free (mem s) (prev (mem s Head)) of
             None \<Rightarrow> None
           | Some (Some b) \<Rightarrow>
               Some (acquiresleep p b
                 (upd b (\<lambda>c. c\<lparr>dev := d, blockno := bn, valid := False, refcnt := 1\<rparr>) s))
           | Some None \<Rightarrow> Some (Panics ''bget:no buffers'' s)))"

subsection \<open>bread, bwrite, brelse, bpin, bunpin\<close>

definition bread :: "pid \<Rightarrow> uint \<Rightarrow> uint \<Rightarrow> bcache \<Rightarrow> ptr outcome option" where
  "bread p d bn s =
     (case bget p d bn s of
        None \<Rightarrow> None
      | Some (Returns b s1) \<Rightarrow>
          (if \<not> valid (mem s1 b)
           then Some (Returns b (upd b (\<lambda>c. c\<lparr>valid := True\<rparr>) (virtio_disk_rw b False s1)))
           else Some (Returns b s1))
      | Some r \<Rightarrow> Some r)"

definition bwrite :: "pid \<Rightarrow> ptr \<Rightarrow> bcache \<Rightarrow> unit outcome" where
  "bwrite p b s =
     (if \<not> holdingsleep p b s then Panics ''bwrite'' s
      else Returns () (virtio_disk_rw b True s))"

text \<open>The six assignments that move \<^verbatim>\<open>b\<close> to the front of the list, in the order of the code.\<close>

definition move_to_head :: "ptr \<Rightarrow> bcache \<Rightarrow> bcache" where
  "move_to_head b s0 =
     (let s1 = upd (next (mem s0 b)) (\<lambda>c. c\<lparr>prev := prev (mem s0 b)\<rparr>) s0;
          s2 = upd (prev (mem s1 b)) (\<lambda>c. c\<lparr>next := next (mem s1 b)\<rparr>) s1;
          s3 = upd b (\<lambda>c. c\<lparr>next := next (mem s2 Head)\<rparr>) s2;
          s4 = upd b (\<lambda>c. c\<lparr>prev := Head\<rparr>) s3;
          s5 = upd (next (mem s4 Head)) (\<lambda>c. c\<lparr>prev := b\<rparr>) s4
      in upd Head (\<lambda>c. c\<lparr>next := b\<rparr>) s5)"

definition brelse :: "pid \<Rightarrow> ptr \<Rightarrow> bcache \<Rightarrow> unit outcome" where
  "brelse p b s =
     (if \<not> holdingsleep p b s then Panics ''brelse'' s
      else
        let s1 = releasesleep b s;
            s2 = upd b (\<lambda>c. c\<lparr>refcnt := refcnt c - 1\<rparr>) s1
        in Returns () (if refcnt (mem s2 b) = 0 then move_to_head b s2 else s2))"

definition bpin :: "ptr \<Rightarrow> bcache \<Rightarrow> bcache" where
  "bpin b s = upd b (\<lambda>c. c\<lparr>refcnt := refcnt c + 1\<rparr>) s"

definition bunpin :: "ptr \<Rightarrow> bcache \<Rightarrow> bcache" where
  "bunpin b s = upd b (\<lambda>c. c\<lparr>refcnt := refcnt c - 1\<rparr>) s"

subsection \<open>Sequences of calls\<close>

text \<open>
  A call by a process, and the state it leaves to the calls after it: the state it
  returns, or the state in which its caller went to sleep. After a panic, and in a loop
  that never ends, there is no next state.
\<close>

datatype op =
    Bget pid uint uint
  | Bread pid uint uint
  | Bwrite pid ptr
  | Brelse pid ptr
  | Bpin ptr
  | Bunpin ptr

fun after :: "'a outcome \<Rightarrow> bcache option" where
  "after (Returns v s) = Some s"
| "after (Sleeps b s) = Some s"
| "after (Panics m s) = None"

fun step :: "op \<Rightarrow> bcache \<Rightarrow> bcache option" where
  "step (Bget p d bn) s = (case bget p d bn s of None \<Rightarrow> None | Some r \<Rightarrow> after r)"
| "step (Bread p d bn) s = (case bread p d bn s of None \<Rightarrow> None | Some r \<Rightarrow> after r)"
| "step (Bwrite p b) s = after (bwrite p b s)"
| "step (Brelse p b) s = after (brelse p b s)"
| "step (Bpin b) s = Some (bpin b s)"
| "step (Bunpin b) s = Some (bunpin b s)"

fun run :: "op list \<Rightarrow> bcache \<Rightarrow> bcache option" where
  "run [] s = Some s"
| "run (x # xs) s = (case step x s of None \<Rightarrow> None | Some s' \<Rightarrow> run xs s')"

subsection \<open>The list invariant\<close>

text \<open>
  \<open>chain h ps\<close>: each pointer of \<open>ps\<close> has the one after it as its \<^verbatim>\<open>next\<close>, and is the
  \<^verbatim>\<open>prev\<close> of the one after it. \<open>ring h xs\<close>: the buffers \<open>xs\<close>, from most to least
  recently used, are what the list holds between the sentinel and the sentinel again.
\<close>

fun chain :: "(ptr \<Rightarrow> buf) \<Rightarrow> ptr list \<Rightarrow> bool" where
  "chain h (a # b # r) = (next (h a) = b \<and> prev (h b) = a \<and> chain h (b # r))"
| "chain h [a] = True"
| "chain h [] = True"

definition ring :: "(ptr \<Rightarrow> buf) \<Rightarrow> ptr list \<Rightarrow> bool" where
  "ring h xs = (chain h (Head # xs @ [Head]) \<and> distinct xs \<and> Head \<notin> set xs)"

definition bound_to :: "(ptr \<Rightarrow> buf) \<Rightarrow> uint \<Rightarrow> uint \<Rightarrow> ptr \<Rightarrow> bool" where
  "bound_to h d bn x = (dev (h x) = d \<and> blockno (h x) = bn)"

text \<open>
  The pair a buffer is bound to. \<open>first_bound h xs x\<close>: no buffer in front of \<open>x\<close> in the
  list is bound to the pair of \<open>x\<close>, so the first loop of \<^verbatim>\<open>bget\<close>, asked for that pair,
  stops at \<open>x\<close>.
\<close>

definition key :: "(ptr \<Rightarrow> buf) \<Rightarrow> ptr \<Rightarrow> uint \<times> uint" where
  "key h x = (dev (h x), blockno (h x))"

definition first_bound :: "(ptr \<Rightarrow> buf) \<Rightarrow> ptr list \<Rightarrow> ptr \<Rightarrow> bool" where
  "first_bound h xs x = (find (\<lambda>y. key h y = key h x) xs = Some x)"

text \<open>
  What every sequence of calls keeps true after \<^verbatim>\<open>binit\<close> for \<open>n\<close> buffers, with \<open>xs\<close> the
  list at that moment: the list is well formed and holds the \<open>n\<close> buffers of the array;
  only a buffer that \<^verbatim>\<open>bget\<close> would find first for its pair is locked; and two buffers of
  the list are bound to the same pair only when the pair is \<open>(0, 0)\<close>, the one static
  storage gives every buffer.
\<close>

definition inv_list :: "nat \<Rightarrow> ptr list \<Rightarrow> bcache \<Rightarrow> bool" where
  "inv_list n xs s =
     (ring (mem s) xs \<and> set xs = Buf ` {..<n} \<and>
      (\<forall>x. lock (mem s x) \<noteq> None \<longrightarrow> first_bound (mem s) xs x) \<and>
      (\<forall>x\<in>set xs. \<forall>y\<in>set xs. x \<noteq> y \<and> key (mem s) x = key (mem s) y \<longrightarrow> key (mem s) x = (0, 0)))"

text \<open>
  \<open>keeps xs s xs' s'\<close>: a buffer with a reference that \<^verbatim>\<open>bget\<close> finds for a pair in state
  \<open>s\<close> (list \<open>xs\<close>) is the one it finds for that pair in state \<open>s'\<close> (list \<open>xs'\<close>).
\<close>

definition keeps :: "ptr list \<Rightarrow> bcache \<Rightarrow> ptr list \<Rightarrow> bcache \<Rightarrow> bool" where
  "keeps xs s xs' s' =
     (\<forall>k c. find (\<lambda>x. key (mem s) x = k) xs = Some c \<and> refcnt (mem s c) \<noteq> 0 \<longrightarrow>
            find (\<lambda>x. key (mem s') x = k) xs' = Some c)"

subsection \<open>Conditions on a sequence of calls\<close>

text \<open>
  \<open>held_during b ops s\<close>: running \<open>ops\<close> from \<open>s\<close>, buffer \<open>b\<close> has a positive reference
  count whenever one of the calls starts.
\<close>

fun held_during :: "ptr \<Rightarrow> op list \<Rightarrow> bcache \<Rightarrow> bool" where
  "held_during b [] s = True"
| "held_during b (x # xs) s =
     (0 < refcnt (mem s b) \<and>
      (case step x s of None \<Rightarrow> True | Some s' \<Rightarrow> held_during b xs s'))"

text \<open>
  The buffer whose count a call decrements, and \<open>guarded ops s\<close>: running \<open>ops\<close> from
  \<open>s\<close>, every \<^verbatim>\<open>brelse\<close> and \<^verbatim>\<open>bunpin\<close> is called on a buffer whose count is positive.
\<close>

fun decrements :: "op \<Rightarrow> ptr option" where
  "decrements (Brelse p b) = Some b"
| "decrements (Bunpin b) = Some b"
| "decrements _ = None"

fun guarded :: "op list \<Rightarrow> bcache \<Rightarrow> bool" where
  "guarded [] s = True"
| "guarded (x # xs) s =
     ((case decrements x of None \<Rightarrow> True | Some b \<Rightarrow> 0 < refcnt (mem s b)) \<and>
      (case step x s of None \<Rightarrow> True | Some s' \<Rightarrow> guarded xs s'))"

subsection \<open>Example states\<close>

text \<open>
  \<open>zero_disk\<close>: a disk whose blocks are 1024 zero bytes. \<open>cache3\<close>: a cache of three
  buffers of 1024 bytes over that disk, right after \<^verbatim>\<open>binit\<close>. \<open>held3\<close>: that cache
  after process 3 called \<^verbatim>\<open>bget(1, 7)\<close>, which took the least recently used buffer
  \<^verbatim>\<open>bcache.buf[0]\<close> (lemma \<open>bget_cache3\<close>).
\<close>

definition zero_disk :: "uint \<times> uint \<Rightarrow> uchar list" where
  "zero_disk k = replicate 1024 0"

definition cache3 :: bcache where
  "cache3 = binit 3 (boot 1024 zero_disk)"

definition held3 :: bcache where
  "held3 = upd (Buf 0) (\<lambda>c. c\<lparr>lock := Some 3\<rparr>)
     (upd (Buf 0) (\<lambda>c. c\<lparr>dev := 1, blockno := 7, valid := False, refcnt := 1\<rparr>) cache3)"

section \<open>Lemmas\<close>

subsection \<open>Chains and rings\<close>

lemma mem_upd: "mem (upd b f s) = (mem s)(b := f (mem s b))"
  and disk_upd: "disk (upd b f s) = disk s"
  and xfers_upd: "xfers (upd b f s) = xfers s"
  by (simp_all add: upd_def)

lemma chain_frame:
  "\<forall>x\<in>set (butlast ps). next (h' x) = next (h x) \<Longrightarrow>
   \<forall>x\<in>set (tl ps). prev (h' x) = prev (h x) \<Longrightarrow> chain h' ps = chain h ps"
  by (induction h ps rule: chain.induct) auto

lemma chain_append: "chain h (xs @ a # ys) = (chain h (xs @ [a]) \<and> chain h (a # ys))"
proof (induction xs)
  case Nil
  then show ?case by simp
next
  case (Cons x xs)
  then show ?case by (cases xs) auto
qed

lemma ring_push:
  assumes r: "ring h xs" and b: "b \<notin> set xs" "b \<noteq> Head"
    and l: "next (h' Head) = b" "prev (h' b) = Head" "next (h' b) = next (h Head)"
      "prev (h' (next (h Head))) = b"
    and fn: "\<And>x. x \<noteq> Head \<Longrightarrow> x \<noteq> b \<Longrightarrow> next (h' x) = next (h x)"
    and fp: "\<And>x. x \<noteq> b \<Longrightarrow> x \<noteq> next (h Head) \<Longrightarrow> prev (h' x) = prev (h x)"
  shows "ring h' (b # xs)"
proof (cases xs)
  case Nil
  with r have "next (h Head) = Head" by (simp add: ring_def)
  with l Nil b show ?thesis by (simp add: ring_def)
next
  case (Cons y ys)
  with r have f: "next (h Head) = y" and c: "chain h (y # ys @ [Head])"
    and d: "distinct (y # ys)" "Head \<notin> set (y # ys)"
    by (simp_all add: ring_def)
  have "chain h' (y # ys @ [Head]) = chain h (y # ys @ [Head])"
  proof (rule chain_frame)
    show "\<forall>x\<in>set (butlast (y # ys @ [Head])). next (h' x) = next (h x)"
      using b d Cons by (auto simp: butlast_append intro!: fn)
    show "\<forall>x\<in>set (tl (y # ys @ [Head])). prev (h' x) = prev (h x)"
      using b d Cons f by (auto intro!: fp)
  qed
  with c l f b d Cons show ?thesis by (simp add: ring_def)
qed

lemma chain_unlink:
  assumes l: "prev (h' (next (h b))) = prev (h b)" "next (h' (prev (h b))) = next (h b)"
    and fn: "\<And>x. x \<noteq> prev (h b) \<Longrightarrow> next (h' x) = next (h x)"
    and fp: "\<And>x. x \<noteq> next (h b) \<Longrightarrow> prev (h' x) = prev (h x)"
  shows "chain h (p # ys @ b # zs @ [q]) \<Longrightarrow> distinct (p # ys @ b # zs) \<Longrightarrow>
         q \<notin> set (ys @ b # zs) \<Longrightarrow> chain h' (p # ys @ zs @ [q])"
proof (induction ys arbitrary: p)
  case Nil
  then have e: "prev (h b) = p" "next (h b) = hd (zs @ [q])" by (cases zs; simp)+
  show ?case
  proof (cases zs)
    case Nil
    with e l show ?thesis by simp
  next
    case (Cons z zs')
    have "chain h' (z # zs' @ [q]) = chain h (z # zs' @ [q])"
    proof (rule chain_frame)
      show "\<forall>x\<in>set (butlast (z # zs' @ [q])). next (h' x) = next (h x)"
        using Nil.prems Cons e by (auto simp: butlast_append intro!: fn)
      show "\<forall>x\<in>set (tl (z # zs' @ [q])). prev (h' x) = prev (h x)"
        using Nil.prems Cons e by (auto intro!: fp)
    qed
    with Nil.prems Cons e l show ?thesis by simp
  qed
next
  case (Cons y ys)
  from Cons.prems have c: "chain h (y # ys @ b # zs @ [q])" and n: "next (h p) = y" "prev (h y) = p"
    by simp_all
  from c have pv: "prev (h b) \<in> set (y # ys)"
    by (induction ys arbitrary: y) auto
  from c have nx: "next (h b) \<in> set (zs @ [q])"
    by (induction ys arbitrary: y) (cases zs; auto)+
  have "chain h' (y # ys @ zs @ [q])"
    using Cons.prems by (intro Cons.IH) auto
  moreover have "p \<noteq> prev (h b)" using pv Cons.prems by auto
  then have "next (h' p) = y" using fn [of p] n by simp
  moreover have "y \<noteq> next (h b)" using nx Cons.prems by auto
  then have "prev (h' y) = p" using fp [of y] n by simp
  ultimately show ?case by simp
qed

lemma ring_unlink:
  assumes r: "ring h xs" and b: "b \<in> set xs"
    and l: "prev (h' (next (h b))) = prev (h b)" "next (h' (prev (h b))) = next (h b)"
    and fn: "\<And>x. x \<noteq> prev (h b) \<Longrightarrow> next (h' x) = next (h x)"
    and fp: "\<And>x. x \<noteq> next (h b) \<Longrightarrow> prev (h' x) = prev (h x)"
  shows "ring h' (remove1 b xs)"
proof -
  from b obtain ys zs where xs: "xs = ys @ b # zs" by (auto simp: in_set_conv_decomp)
  with r have d: "distinct (Head # ys @ b # zs)" "Head \<notin> set (ys @ b # zs)"
    and c: "chain h (Head # ys @ b # zs @ [Head])" by (simp_all add: ring_def)
  from chain_unlink [OF l fn fp c d]
  have "chain h' (Head # ys @ zs @ [Head])" by simp
  moreover from d have "remove1 b (ys @ b # zs) = ys @ zs" by (simp add: remove1_append)
  ultimately show ?thesis using d xs by (simp add: ring_def)
qed

subsection \<open>The loops of bget on a well-formed list\<close>

lemma ring_head_next: "ring h xs \<Longrightarrow> next (h Head) = hd (xs @ [Head])"
  by (cases xs) (simp_all add: ring_def)

lemma ring_head_next_cases: "ring h xs \<Longrightarrow> next (h Head) = Head \<or> next (h Head) \<in> set xs"
  by (cases xs) (simp_all add: ring_def)

lemma scan_cached_chain:
  "chain h (p # xs @ [Head]) \<Longrightarrow> Head \<notin> set xs \<Longrightarrow>
   scan_cached h d bn (next (h p)) = Some (find (bound_to h d bn) xs)"
proof (induction xs arbitrary: p)
  case Nil
  then show ?case by (simp add: scan_cached.simps)
next
  case (Cons x xs)
  then have "next (h p) = x" "x \<noteq> Head" "chain h (x # xs @ [Head])" "Head \<notin> set xs"
    by auto
  with Cons.IH [of x] show ?case
    by (subst scan_cached.simps) (simp add: bound_to_def [abs_def])
qed

lemma scan_free_chain:
  "chain h (Head # xs @ [q]) \<Longrightarrow> Head \<notin> set xs \<Longrightarrow>
   scan_free h (prev (h q)) = Some (find (\<lambda>x. refcnt (h x) = 0) (rev xs))"
proof (induction xs arbitrary: q rule: rev_induct)
  case Nil
  then show ?case by (simp add: scan_free.simps)
next
  case (snoc x xs)
  from snoc.prems have "chain h ((Head # xs) @ x # [q])" by simp
  then have "chain h (Head # xs @ [x])" "prev (h q) = x"
    unfolding chain_append [of h "Head # xs" x "[q]"] by simp_all
  moreover from snoc.prems have "x \<noteq> Head" "Head \<notin> set xs" by auto
  ultimately show ?case using snoc.IH [of x]
    by (subst scan_free.simps) simp
qed

lemma bget_ring:
  assumes "ring (mem s) xs"
  shows "bget p d bn s = Some
    (case find (bound_to (mem s) d bn) xs of
       Some b \<Rightarrow> acquiresleep p b (upd b (\<lambda>c. c\<lparr>refcnt := refcnt c + 1\<rparr>) s)
     | None \<Rightarrow>
        (case find (\<lambda>x. refcnt (mem s x) = 0) (rev xs) of
           Some b \<Rightarrow> acquiresleep p b
             (upd b (\<lambda>c. c\<lparr>dev := d, blockno := bn, valid := False, refcnt := 1\<rparr>) s)
         | None \<Rightarrow> Panics ''bget:no buffers'' s))"
proof -
  from assms have c: "chain (mem s) (Head # xs @ [Head])" and h: "Head \<notin> set xs"
    by (simp_all add: ring_def)
  show ?thesis
    unfolding bget_def scan_cached_chain [OF c h] scan_free_chain [OF c h]
    by (simp split: option.splits)
qed

subsection \<open>binit builds the list\<close>

lemma binit_body_ring:
  assumes r: "ring (mem s) xs" and b: "b \<notin> set xs" "b \<noteq> Head"
  shows "ring (mem (binit_body b s)) (b # xs)"
proof (rule ring_push [OF r b])
  from ring_head_next_cases [OF r] b have n: "next (mem s Head) \<noteq> b" by auto
  show "next (mem (binit_body b s) Head) = b"
    by (simp add: binit_body_def Let_def mem_upd)
  show "prev (mem (binit_body b s) b) = Head"
    using b n by (simp add: binit_body_def Let_def mem_upd)
  show "next (mem (binit_body b s) b) = next (mem s Head)"
    using b n by (simp add: binit_body_def Let_def mem_upd)
  show "prev (mem (binit_body b s) (next (mem s Head))) = b"
    using b n by (simp add: binit_body_def Let_def mem_upd)
  show "next (mem (binit_body b s) x) = next (mem s x)" if "x \<noteq> Head" "x \<noteq> b" for x
    using that b n by (simp add: binit_body_def Let_def mem_upd)
  show "prev (mem (binit_body b s) x) = prev (mem s x)" if "x \<noteq> b" "x \<noteq> next (mem s Head)" for x
    using that b n by (auto simp: binit_body_def Let_def mem_upd)
qed

lemma binit_ring: "ring (mem (binit n s)) (rev (map Buf [0..<n]))"
proof -
  let ?s0 = "upd Head (\<lambda>c. c\<lparr>next := Head\<rparr>) (upd Head (\<lambda>c. c\<lparr>prev := Head\<rparr>) s)"
  have "ring (mem (fold (\<lambda>i. binit_body (Buf i)) [0..<n] ?s0)) (rev (map Buf [0..<n]))"
  proof (induction n)
    case 0
    show ?case by (simp add: ring_def mem_upd)
  next
    case (Suc n)
    then show ?case by (auto intro!: binit_body_ring)
  qed
  then show ?thesis by (simp add: binit_def Let_def)
qed

subsection \<open>Moving a buffer to the front\<close>

lemma chain_mid:
  "chain h (y # ys @ b # zs @ [q]) \<Longrightarrow>
   prev (h b) \<in> set (y # ys) \<and> next (h b) \<in> set (zs @ [q])"
  by (induction ys arbitrary: y) (cases zs; auto)+

lemma ring_links:
  assumes "ring h xs" "b \<in> set xs"
  shows "next (h b) \<noteq> b" "prev (h b) \<noteq> b"
    "next (h b) = Head \<or> next (h b) \<in> set xs" "prev (h b) = Head \<or> prev (h b) \<in> set xs"
proof -
  from assms obtain ys zs where xs: "xs = ys @ b # zs" by (auto simp: in_set_conv_decomp)
  with assms have d: "distinct (Head # ys @ b # zs)"
    and c: "chain h (Head # ys @ b # zs @ [Head])" by (simp_all add: ring_def)
  from chain_mid [OF c] d xs
  show "next (h b) \<noteq> b" "prev (h b) \<noteq> b"
    "next (h b) = Head \<or> next (h b) \<in> set xs" "prev (h b) = Head \<or> prev (h b) \<in> set xs"
    by auto
qed

lemma move_to_head_ring:
  assumes r: "ring (mem s) xs" and b: "b \<in> set xs"
  shows "ring (mem (move_to_head b s)) (b # remove1 b xs)"
proof -
  define s2 where "s2 = upd (prev (mem s b)) (\<lambda>c. c\<lparr>next := next (mem s b)\<rparr>)
    (upd (next (mem s b)) (\<lambda>c. c\<lparr>prev := prev (mem s b)\<rparr>) s)"
  note f = ring_links(1,2) [OF r b]
  from r b have bh: "b \<noteq> Head" and d: "distinct xs" by (auto simp: ring_def)
  have m: "move_to_head b s =
    upd Head (\<lambda>c. c\<lparr>next := b\<rparr>)
      (upd (next (mem s2 Head)) (\<lambda>c. c\<lparr>prev := b\<rparr>)
        (upd b (\<lambda>c. c\<lparr>prev := Head\<rparr>)
          (upd b (\<lambda>c. c\<lparr>next := next (mem s2 Head)\<rparr>) s2)))"
    using f bh by (simp add: move_to_head_def Let_def s2_def mem_upd)
  have r2: "ring (mem s2) (remove1 b xs)"
    by (rule ring_unlink [OF r b]) (simp_all add: s2_def mem_upd)
  from d have nb: "b \<notin> set (remove1 b xs)" by simp
  from ring_head_next_cases [OF r2] nb bh have n: "next (mem s2 Head) \<noteq> b" by auto
  show ?thesis
    by (rule ring_push [OF r2 nb bh]) (use n bh in \<open>auto simp: m mem_upd\<close>)
qed

subsection \<open>The invariant under each kind of change\<close>

lemma bound_to_key: "bound_to h d bn = (\<lambda>x. key h x = (d, bn))"
  by (auto simp: bound_to_def key_def fun_eq_iff)

lemma ring_cong:
  assumes "\<And>x. next (h' x) = next (h x)" "\<And>x. prev (h' x) = prev (h x)"
  shows "ring h' xs = ring h xs"
proof -
  have "chain h' ps = chain h ps" for ps
    by (rule chain_frame) (simp_all add: assms)
  then show ?thesis by (simp add: ring_def)
qed

lemma find_remove1: "\<not> P c \<Longrightarrow> find P (remove1 c xs) = find P xs"
  by (induction xs) auto

lemma find_SomeD: "find P xs = Some x \<Longrightarrow> x \<in> set xs \<and> P x"
  by (induction xs) (auto split: if_splits)

lemma find_weaken:
  "find P xs = Some c \<Longrightarrow> \<forall>y\<in>set xs. Q y \<longrightarrow> P y \<Longrightarrow> Q c \<Longrightarrow> find Q xs = Some c"
proof (induction xs)
  case Nil
  then show ?case by simp
next
  case (Cons a xs)
  show ?case
  proof (cases "P a")
    case True
    with Cons.prems show ?thesis by simp
  next
    case False
    with Cons.prems have "\<not> Q a" "find P xs = Some c" by auto
    with Cons show ?thesis by simp
  qed
qed

lemma find_unique:
  "x \<in> set xs \<Longrightarrow> P x \<Longrightarrow> \<forall>y\<in>set xs. P y \<longrightarrow> y = x \<Longrightarrow> find P xs = Some x"
proof (induction xs)
  case Nil
  then show ?case by simp
next
  case (Cons a xs)
  show ?case
  proof (cases "P a")
    case True
    with Cons.prems(3) have "a = x" by simp
    with True show ?thesis by simp
  next
    case False
    with Cons.prems(1,2) have m: "x \<in> set xs" by auto
    from Cons.prems(3) have u: "\<forall>y\<in>set xs. P y \<longrightarrow> y = x" by simp
    from False Cons.IH [OF m Cons.prems(2) u] show ?thesis by simp
  qed
qed

lemma inv_list_meta:
  assumes i: "inv_list n xs s"
    and l: "\<And>x. next (mem s' x) = next (mem s x)" "\<And>x. prev (mem s' x) = prev (mem s x)"
    and k: "\<And>x. key (mem s') x = key (mem s) x"
    and j: "\<And>x. lock (mem s' x) \<noteq> None \<Longrightarrow> lock (mem s x) \<noteq> None \<or> first_bound (mem s) xs x"
  shows "inv_list n xs s'"
proof -
  have ke: "key (mem s') = key (mem s)" using k by (simp add: fun_eq_iff)
  have r: "ring (mem s') xs" using i ring_cong [of "mem s'" "mem s", OF l] by (simp add: inv_list_def)
  have "first_bound (mem s) xs x" if "lock (mem s' x) \<noteq> None" for x
    using j [OF that] i by (auto simp: inv_list_def)
  then have f: "\<forall>x. lock (mem s' x) \<noteq> None \<longrightarrow> first_bound (mem s') xs x"
    by (simp add: first_bound_def ke)
  from i have "set xs = Buf ` {..<n}"
    and "\<forall>x\<in>set xs. \<forall>y\<in>set xs. x \<noteq> y \<and> key (mem s) x = key (mem s) y \<longrightarrow> key (mem s) x = (0, 0)"
    by (simp_all add: inv_list_def)
  with r f show ?thesis by (simp add: inv_list_def ke)
qed

lemma inv_list_evict:
  assumes i: "inv_list n xs s" and b: "b \<in> set xs"
    and m: "\<forall>x\<in>set xs. key (mem s) x \<noteq> k"
    and l: "\<And>x. next (mem s' x) = next (mem s x)" "\<And>x. prev (mem s' x) = prev (mem s x)"
    and kb: "key (mem s') b = k"
    and ko: "\<And>x. x \<noteq> b \<Longrightarrow> key (mem s') x = key (mem s) x"
    and j: "\<And>x. x \<noteq> b \<Longrightarrow> lock (mem s' x) \<noteq> None \<Longrightarrow> lock (mem s x) \<noteq> None"
  shows "inv_list n xs s'"
    and "find (\<lambda>x. key (mem s) x = k') xs = Some c \<Longrightarrow> c \<noteq> b \<Longrightarrow>
         find (\<lambda>x. key (mem s') x = k') xs = Some c"
proof -
  have r: "ring (mem s') xs" using i ring_cong [of "mem s'" "mem s", OF l] by (simp add: inv_list_def)
  have kk: "key (mem s') y = key (mem s) y \<or> (y = b \<and> key (mem s') y = k)" for y
    using kb ko by (cases "y = b") simp_all
  have w: "find (\<lambda>y. key (mem s') y = k') xs = Some x"
    if f: "find (\<lambda>y. key (mem s) y = k') xs = Some x" and xb: "x \<noteq> b" for x k'
  proof -
    from f have x: "x \<in> set xs" "key (mem s) x = k'" by (auto dest: find_SomeD)
    with m have "k' \<noteq> k" by auto
    have "key (mem s) y = k'" if "y \<in> set xs" "key (mem s') y = k'" for y
      using kk [of y] that \<open>k' \<noteq> k\<close> by auto
    moreover have "key (mem s') x = k'" using ko [OF xb] x by simp
    ultimately show ?thesis using find_weaken [OF f, of "\<lambda>y. key (mem s') y = k'"] by simp
  qed
  have fb: "first_bound (mem s') xs b"
    unfolding first_bound_def
  proof (rule find_unique [OF b])
    show "key (mem s') b = key (mem s') b" by simp
    show "\<forall>y\<in>set xs. key (mem s') y = key (mem s') b \<longrightarrow> y = b"
    proof (intro ballI impI)
      fix y assume "y \<in> set xs" "key (mem s') y = key (mem s') b"
      with kk [of y] m kb show "y = b" by auto
    qed
  qed
  have fo: "first_bound (mem s') xs x" if "x \<noteq> b" "lock (mem s' x) \<noteq> None" for x
  proof -
    from j that have "lock (mem s x) \<noteq> None" by simp
    with i have f: "find (\<lambda>y. key (mem s) y = key (mem s) x) xs = Some x"
      by (simp add: inv_list_def first_bound_def)
    from w [OF f that(1)] show ?thesis by (simp add: first_bound_def ko [OF that(1)])
  qed
  have d: "key (mem s') x = (0, 0)"
    if "x \<in> set xs" "y \<in> set xs" "x \<noteq> y" "key (mem s') x = key (mem s') y" for x y
  proof -
    from that kk [of x] kk [of y] m kb have "x \<noteq> b" "y \<noteq> b" by auto
    with that i ko show ?thesis by (auto simp: inv_list_def)
  qed
  from fb fo have "first_bound (mem s') xs x" if "lock (mem s' x) \<noteq> None" for x
    using that by (cases "x = b") simp_all
  moreover from i have "set xs = Buf ` {..<n}" by (simp add: inv_list_def)
  ultimately show "inv_list n xs s'" using r d by (simp add: inv_list_def)
  assume "find (\<lambda>x. key (mem s) x = k') xs = Some c" "c \<noteq> b"
  then show "find (\<lambda>x. key (mem s') x = k') xs = Some c" by (rule w)
qed

lemma inv_list_front:
  assumes i: "inv_list n xs s" and b: "first_bound (mem s) xs b"
    and r: "ring (mem s') (b # remove1 b xs)"
    and k: "\<And>x. key (mem s') x = key (mem s) x"
    and j: "\<And>x. lock (mem s' x) \<noteq> None \<Longrightarrow> x \<noteq> b \<and> lock (mem s x) \<noteq> None"
  shows "inv_list n (b # remove1 b xs) s'"
    and "find (\<lambda>x. key (mem s) x = k') xs = Some c \<Longrightarrow>
         find (\<lambda>x. key (mem s') x = k') (b # remove1 b xs) = Some c"
proof -
  have ke: "key (mem s') = key (mem s)" using k by (simp add: fun_eq_iff)
  from b have bx: "b \<in> set xs" by (auto simp: first_bound_def dest: find_SomeD)
  from i have dx: "distinct xs" by (simp add: inv_list_def ring_def)
  from bx dx have se: "set (b # remove1 b xs) = set xs" by auto
  have fo: "first_bound (mem s') (b # remove1 b xs) x" if "lock (mem s' x) \<noteq> None" for x
  proof -
    from j [OF that] have xb: "x \<noteq> b" and "lock (mem s x) \<noteq> None" by simp_all
    with i have f: "find (\<lambda>y. key (mem s) y = key (mem s) x) xs = Some x"
      by (simp add: inv_list_def first_bound_def)
    have nb: "key (mem s) b \<noteq> key (mem s) x"
    proof
      assume "key (mem s) b = key (mem s) x"
      with b have "find (\<lambda>y. key (mem s) y = key (mem s) x) xs = Some b"
        by (simp add: first_bound_def)
      with f xb show False by simp
    qed
    then show ?thesis using f by (simp add: first_bound_def ke find_remove1)
  qed
  from i have "set xs = Buf ` {..<n}"
    and dz: "\<forall>x\<in>set xs. \<forall>y\<in>set xs. x \<noteq> y \<and> key (mem s) x = key (mem s) y \<longrightarrow> key (mem s) x = (0, 0)"
    by (simp_all add: inv_list_def)
  with r se fo show "inv_list n (b # remove1 b xs) s'"
    unfolding inv_list_def ke by (intro conjI) (simp_all only: se, simp_all)
  assume f: "find (\<lambda>x. key (mem s) x = k') xs = Some c"
  show "find (\<lambda>x. key (mem s') x = k') (b # remove1 b xs) = Some c"
  proof (cases "key (mem s) b = k'")
    case True
    with b f have "c = b" by (auto simp: first_bound_def)
    with True show ?thesis by (simp add: ke)
  next
    case False
    with f show ?thesis by (simp add: ke find_remove1)
  qed
qed

subsection \<open>Every call keeps the invariant\<close>

lemma move_to_head_fields:
  "dev (mem (move_to_head b s) x) = dev (mem s x)"
  "blockno (mem (move_to_head b s) x) = blockno (mem s x)"
  "lock (mem (move_to_head b s) x) = lock (mem s x)"
  "refcnt (mem (move_to_head b s) x) = refcnt (mem s x)"
  "valid (mem (move_to_head b s) x) = valid (mem s x)"
  "data (mem (move_to_head b s) x) = data (mem s x)"
  "disk (move_to_head b s) = disk s"
  "xfers (move_to_head b s) = xfers s"
  by (simp_all add: move_to_head_def Let_def mem_upd disk_upd xfers_upd)

lemma after_acquiresleep:
  "after (acquiresleep p b s) =
     Some (if lock (mem s b) = None then upd b (\<lambda>c. c\<lparr>lock := Some p\<rparr>) s else s)"
  by (simp add: acquiresleep_def)

lemma keeps_meta: "(\<And>x. key (mem s') x = key (mem s) x) \<Longrightarrow> keeps xs s xs s'"
  by (simp add: keeps_def)

lemma keeps_trans: "keeps xs s ys t \<Longrightarrow> (\<And>x. key (mem u) x = key (mem t) x) \<Longrightarrow> keeps xs s ys u"
  by (simp add: keeps_def)

lemma bget_inv:
  assumes i: "inv_list n xs s" and g: "bget p d bn s = Some r" and a: "after r = Some s'"
  shows "inv_list n xs s' \<and> keeps xs s xs s'"
proof -
  from i have r: "ring (mem s) xs" by (simp add: inv_list_def)
  note e = g [unfolded bget_ring [OF r] bound_to_key]
  show ?thesis
  proof (cases "find (\<lambda>x. key (mem s) x = (d, bn)) xs")
    case (Some b)
    from find_SomeD [OF Some] have "key (mem s) b = (d, bn)" by simp
    with Some have fb: "first_bound (mem s) xs b"
      by (simp add: first_bound_def)
    from e a Some have s': "s' = (if lock (mem s b) = None
        then upd b (\<lambda>c. c\<lparr>lock := Some p\<rparr>) (upd b (\<lambda>c. c\<lparr>refcnt := refcnt c + 1\<rparr>) s)
        else upd b (\<lambda>c. c\<lparr>refcnt := refcnt c + 1\<rparr>) s)"
      by (auto simp: after_acquiresleep mem_upd)
    have k: "key (mem s') x = key (mem s) x" for x
      by (simp add: s' key_def mem_upd)
    have "inv_list n xs s'"
    proof (rule inv_list_meta [OF i _ _ k])
      show "next (mem s' x) = next (mem s x)" for x by (simp add: s' mem_upd)
      show "prev (mem s' x) = prev (mem s x)" for x by (simp add: s' mem_upd)
      show "lock (mem s x) \<noteq> None \<or> first_bound (mem s) xs x" if "lock (mem s' x) \<noteq> None" for x
        using that fb by (cases "x = b") (auto simp: s' mem_upd split: if_splits)
    qed
    with keeps_meta [of s' s xs, OF k] show ?thesis by simp
  next
    case None
    then have m: "\<forall>x\<in>set xs. key (mem s) x \<noteq> (d, bn)" by (simp add: find_None_iff)
    from e a None obtain b where f: "find (\<lambda>x. refcnt (mem s x) = 0) (rev xs) = Some b"
      by (cases "find (\<lambda>x. refcnt (mem s x) = 0) (rev xs)") auto
    then have b: "b \<in> set xs" "refcnt (mem s b) = 0" by (auto dest: find_SomeD)
    let ?t = "upd b (\<lambda>c. c\<lparr>dev := d, blockno := bn, valid := False, refcnt := 1\<rparr>) s"
    from e a None f have s': "s' = (if lock (mem s b) = None
        then upd b (\<lambda>c. c\<lparr>lock := Some p\<rparr>) ?t else ?t)"
      by (auto simp: after_acquiresleep mem_upd)
    have l: "next (mem s' x) = next (mem s x)" "prev (mem s' x) = prev (mem s x)" for x
      by (simp_all add: s' mem_upd)
    have kb: "key (mem s') b = (d, bn)" by (simp add: s' key_def mem_upd)
    have ko: "key (mem s') x = key (mem s) x" if "x \<noteq> b" for x
      using that by (simp add: s' key_def mem_upd)
    have j: "lock (mem s x) \<noteq> None" if "x \<noteq> b" "lock (mem s' x) \<noteq> None" for x
      using that by (simp add: s' mem_upd split: if_splits)
    note ev = inv_list_evict [OF i b(1) m l kb ko j]
    have "keeps xs s xs s'"
      unfolding keeps_def using ev(2) b(2) by blast
    with ev(1) show ?thesis by simp
  qed
qed

lemma inv_list_mem: "mem s' = mem s \<Longrightarrow> inv_list n xs s' = inv_list n xs s"
  by (simp add: inv_list_def)

lemma mem_virtio_write: "mem (virtio_disk_rw b True s) = mem s"
  by (simp add: virtio_disk_rw_def Let_def)

lemma mem_fill:
  "mem (upd b (\<lambda>c. c\<lparr>valid := True\<rparr>) (virtio_disk_rw b False s)) =
   (mem s)(b := (mem s b)\<lparr>data := disk s (dev (mem s b), blockno (mem s b)), valid := True\<rparr>)"
  by (simp add: virtio_disk_rw_def Let_def upd_def)

lemma bread_after:
  assumes "bread p d bn s = Some r" "after r = Some s'"
  shows "\<exists>r1 s1. bget p d bn s = Some r1 \<and> after r1 = Some s1 \<and>
           (s' = s1 \<or> (\<exists>b. s' = upd b (\<lambda>c. c\<lparr>valid := True\<rparr>) (virtio_disk_rw b False s1)))"
  using assms by (auto simp: bread_def split: option.splits outcome.splits if_splits)

lemma step_inv:
  assumes i: "inv_list n xs s" and st: "step a s = Some s'"
  shows "\<exists>xs'. inv_list n xs' s' \<and> keeps xs s xs' s'"
proof (cases a)
  case (Bget p d bn)
  with st obtain r where "bget p d bn s = Some r" "after r = Some s'"
    by (auto split: option.splits)
  from bget_inv [OF i this] show ?thesis by blast
next
  case (Bread p d bn)
  with st obtain r where "bread p d bn s = Some r" "after r = Some s'"
    by (auto split: option.splits)
  from bread_after [OF this] obtain r1 s1 where g: "bget p d bn s = Some r1" "after r1 = Some s1"
    and s': "s' = s1 \<or> (\<exists>b. s' = upd b (\<lambda>c. c\<lparr>valid := True\<rparr>) (virtio_disk_rw b False s1))"
    by blast
  from bget_inv [OF i g] have i1: "inv_list n xs s1" and k1: "keeps xs s xs s1" by simp_all
  from s' have l: "next (mem s' x) = next (mem s1 x)" "prev (mem s' x) = prev (mem s1 x)"
    "lock (mem s' x) = lock (mem s1 x)" and k: "key (mem s') x = key (mem s1) x" for x
    by (auto simp: mem_fill key_def)
  have "inv_list n xs s'"
    by (rule inv_list_meta [OF i1 l(1,2) k]) (simp add: l)
  moreover from k1 k have "keeps xs s xs s'" by (rule keeps_trans)
  ultimately show ?thesis by blast
next
  case (Bwrite p b)
  with st have "s' = virtio_disk_rw b True s"
    by (auto simp: bwrite_def split: if_splits)
  then have m: "mem s' = mem s" by (simp add: mem_virtio_write)
  with i have "inv_list n xs s'" using inv_list_mem [of s' s n xs] by simp
  moreover from m have "keeps xs s xs s'" by (simp add: keeps_def)
  ultimately show ?thesis by blast
next
  case (Brelse p b)
  let ?s2 = "upd b (\<lambda>c. c\<lparr>refcnt := refcnt c - 1\<rparr>) (releasesleep b s)"
  from st Brelse have h: "lock (mem s b) = Some p"
    and s': "s' = (if refcnt (mem ?s2 b) = 0 then move_to_head b ?s2 else ?s2)"
    by (auto simp: brelse_def holdingsleep_def Let_def split: if_splits)
  from h i have fb: "first_bound (mem s) xs b" by (simp add: inv_list_def)
  have l2: "next (mem ?s2 x) = next (mem s x)" "prev (mem ?s2 x) = prev (mem s x)" for x
    by (simp_all add: releasesleep_def mem_upd)
  have k2: "key (mem ?s2) x = key (mem s) x" for x
    by (simp add: releasesleep_def mem_upd key_def)
  have j2: "lock (mem ?s2 x) = (if x = b then None else lock (mem s x))" for x
    by (simp add: releasesleep_def mem_upd)
  have i2: "inv_list n xs ?s2"
    by (rule inv_list_meta [OF i l2 k2]) (simp add: j2 split: if_splits)
  have ke: "key (mem ?s2) = key (mem s)" using k2 by (simp add: fun_eq_iff)
  show ?thesis
  proof (cases "refcnt (mem ?s2 b) = 0")
    case False
    with s' have "s' = ?s2" by simp
    with i2 keeps_meta [of ?s2 s xs, OF k2] show ?thesis by blast
  next
    case True
    with s' have e: "s' = move_to_head b ?s2" by simp
    from fb have fb2: "first_bound (mem ?s2) xs b" by (simp add: first_bound_def ke)
    then have bx: "b \<in> set xs" by (auto simp: first_bound_def dest: find_SomeD)
    from i2 have r2: "ring (mem ?s2) xs" by (simp add: inv_list_def)
    have r': "ring (mem s') (b # remove1 b xs)"
      unfolding e by (rule move_to_head_ring [OF r2 bx])
    have k': "key (mem s') x = key (mem ?s2) x" for x
      by (simp add: e key_def move_to_head_fields)
    have j': "x \<noteq> b \<and> lock (mem ?s2 x) \<noteq> None" if "lock (mem s' x) \<noteq> None" for x
      using that unfolding e move_to_head_fields j2 by (simp split: if_splits)
    note fr = inv_list_front [OF i2 fb2 r' k' j']
    have "keeps xs s (b # remove1 b xs) s'"
      unfolding keeps_def using fr(2) by (simp add: ke)
    with fr(1) show ?thesis by blast
  qed
next
  case (Bpin b)
  with st have s': "s' = upd b (\<lambda>c. c\<lparr>refcnt := refcnt c + 1\<rparr>) s" by (simp add: bpin_def)
  have k: "key (mem s') x = key (mem s) x" for x by (simp add: s' key_def mem_upd)
  have "inv_list n xs s'"
    by (rule inv_list_meta [OF i _ _ k]) (simp_all add: s' mem_upd split: if_splits)
  with keeps_meta [of s' s xs, OF k] show ?thesis by blast
next
  case (Bunpin b)
  with st have s': "s' = upd b (\<lambda>c. c\<lparr>refcnt := refcnt c - 1\<rparr>) s" by (simp add: bunpin_def)
  have k: "key (mem s') x = key (mem s) x" for x by (simp add: s' key_def mem_upd)
  have "inv_list n xs s'"
    by (rule inv_list_meta [OF i _ _ k]) (simp_all add: s' mem_upd split: if_splits)
  with keeps_meta [of s' s xs, OF k] show ?thesis by blast
qed

lemma run_inv:
  "inv_list n xs s \<Longrightarrow> run ops s = Some s' \<Longrightarrow> \<exists>xs'. inv_list n xs' s'"
proof (induction ops arbitrary: xs s)
  case Nil
  then show ?case by auto
next
  case (Cons x ops)
  from Cons.prems(2) obtain t where t: "step x s = Some t" "run ops t = Some s'"
    by (auto split: option.splits)
  from step_inv [OF Cons.prems(1) t(1)] obtain ys where "inv_list n ys t" by blast
  from Cons.IH [OF this t(2)] show ?case .
qed

subsection \<open>From binit onwards\<close>

lemma binit_body_fields:
  "dev (mem (binit_body b s) x) = dev (mem s x)"
  "blockno (mem (binit_body b s) x) = blockno (mem s x)"
  "refcnt (mem (binit_body b s) x) = refcnt (mem s x)"
  "lock (mem (binit_body b s) x) = (if x = b then None else lock (mem s x))"
  by (simp_all add: binit_body_def Let_def mem_upd)

lemma binit_fields:
  "dev (mem (binit n s) x) = dev (mem s x) \<and>
   blockno (mem (binit n s) x) = blockno (mem s x) \<and>
   refcnt (mem (binit n s) x) = refcnt (mem s x) \<and>
   (lock (mem s x) = None \<longrightarrow> lock (mem (binit n s) x) = None)"
proof -
  let ?s0 = "upd Head (\<lambda>c. c\<lparr>next := Head\<rparr>) (upd Head (\<lambda>c. c\<lparr>prev := Head\<rparr>) s)"
  have "dev (mem (fold (\<lambda>i. binit_body (Buf i)) [0..<n] ?s0) x) = dev (mem s x) \<and>
    blockno (mem (fold (\<lambda>i. binit_body (Buf i)) [0..<n] ?s0) x) = blockno (mem s x) \<and>
    refcnt (mem (fold (\<lambda>i. binit_body (Buf i)) [0..<n] ?s0) x) = refcnt (mem s x) \<and>
    (lock (mem s x) = None \<longrightarrow> lock (mem (fold (\<lambda>i. binit_body (Buf i)) [0..<n] ?s0) x) = None)"
    by (induction n) (simp_all add: binit_body_fields mem_upd)
  then show ?thesis by (simp add: binit_def Let_def)
qed

lemma boot_fields:
  "dev (mem (boot bsize dk) x) = 0" "blockno (mem (boot bsize dk) x) = 0"
  "refcnt (mem (boot bsize dk) x) = 0" "lock (mem (boot bsize dk) x) = None"
  by (simp_all add: boot_def zero_buf_def)

lemma binit_inv: "inv_list n (rev (map Buf [0..<n])) (binit n (boot bsize dk))"
proof -
  have "key (mem (binit n (boot bsize dk))) x = (0, 0)" for x
    using binit_fields [of n "boot bsize dk" x] by (simp add: key_def boot_fields)
  moreover have "lock (mem (binit n (boot bsize dk)) x) = None" for x
    using binit_fields [of n "boot bsize dk" x] by (simp add: boot_fields)
  moreover have "set (rev (map Buf [0..<n])) = Buf ` {..<n}" by (simp add: lessThan_atLeast0)
  ultimately show ?thesis
    unfolding inv_list_def using binit_ring [of n "boot bsize dk"] by simp
qed

lemma reach_inv:
  "run ops (binit n (boot bsize dk)) = Some s \<Longrightarrow> \<exists>xs. inv_list n xs s"
  using run_inv [OF binit_inv] by blast

lemma run_keeps:
  "inv_list n xs s \<Longrightarrow> find (\<lambda>x. key (mem s) x = k) xs = Some b \<Longrightarrow>
   run ops s = Some s' \<Longrightarrow> held_during b ops s \<Longrightarrow>
   \<exists>xs'. inv_list n xs' s' \<and> find (\<lambda>x. key (mem s') x = k) xs' = Some b"
proof (induction ops arbitrary: xs s)
  case Nil
  then show ?case by auto
next
  case (Cons a ops)
  from Cons.prems(3) obtain t where t: "step a s = Some t" "run ops t = Some s'"
    by (auto split: option.splits)
  from Cons.prems(4) t have h: "refcnt (mem s b) \<noteq> 0" "held_during b ops t" by auto
  from step_inv [OF Cons.prems(1) t(1)] obtain ys where ys: "inv_list n ys t" "keeps xs s ys t"
    by blast
  from ys(2) Cons.prems(2) h(1) have "find (\<lambda>x. key (mem t) x = k) ys = Some b"
    unfolding keeps_def by blast
  from Cons.IH [OF ys(1) this t(2) h(2)] show ?case .
qed

subsection \<open>Links, counts and inverses\<close>

lemma find_rev_split:
  "P b \<Longrightarrow> \<forall>u\<in>set us. \<not> P u \<Longrightarrow> find P (rev (vs @ b # us)) = Some b"
  by (induction us rule: rev_induct) auto

lemma acquiresleep_links:
  "next (mem (state_of (acquiresleep p b s)) x) = next (mem s x)"
  "prev (mem (state_of (acquiresleep p b s)) x) = prev (mem s x)"
  by (simp_all add: acquiresleep_def mem_upd)

lemma after_state_of: "after r = Some s' \<Longrightarrow> state_of r = s'"
  by (cases r) simp_all

lemma bget_links:
  assumes "bget p d bn s = Some r"
  shows "next (mem (state_of r) x) = next (mem s x) \<and> prev (mem (state_of r) x) = prev (mem s x)"
  using assms
  by (auto simp: bget_def acquiresleep_links mem_upd split: option.splits)

lemma bread_links:
  assumes "bread p d bn s = Some r"
  shows "next (mem (state_of r) x) = next (mem s x) \<and> prev (mem (state_of r) x) = prev (mem s x)"
proof (cases "bget p d bn s")
  case None
  with assms show ?thesis by (simp add: bread_def)
next
  case (Some r1)
  note l = bget_links [OF Some, of x]
  show ?thesis
  proof (cases r1)
    case (Returns b s1)
    with assms Some l show ?thesis
      by (auto simp: bread_def mem_fill split: if_splits)
  next
    case (Sleeps b s1)
    with assms Some l show ?thesis by (auto simp: bread_def)
  next
    case (Panics m s1)
    with assms Some l show ?thesis by (auto simp: bread_def)
  qed
qed

lemma find_key_bound: "find (bound_to h d bn) xs = find (\<lambda>x. key h x = (d, bn)) xs"
  by (simp add: bound_to_key)

lemma acquiresleep_cases:
  "acquiresleep p c t = Returns b s1 \<or> acquiresleep p c t = Sleeps b s1 \<Longrightarrow>
   b = c \<and> (s1 = t \<or> s1 = upd c (\<lambda>c. c\<lparr>lock := Some p\<rparr>) t)"
  by (auto simp: acquiresleep_def split: if_splits)

lemma chain_next_prev:
  "chain h ps \<Longrightarrow> x \<in> set (butlast ps) \<Longrightarrow> prev (h (next (h x))) = x"
  by (induction h ps rule: chain.induct) (auto split: if_splits)

lemma chain_prev_next:
  "chain h ps \<Longrightarrow> x \<in> set (tl ps) \<Longrightarrow> next (h (prev (h x))) = x"
  by (induction h ps rule: chain.induct) (auto split: if_splits)

lemma ring_inverse:
  assumes "ring h xs" and "x \<in> set (Head # xs)"
  shows "prev (h (next (h x))) = x \<and> next (h (prev (h x))) = x"
proof -
  from assms(1) have c: "chain h (Head # xs @ [Head])" by (simp add: ring_def)
  have "butlast (Head # xs @ [Head]) = Head # xs"
    by (simp add: butlast_append)
  with assms(2) have "x \<in> set (butlast (Head # xs @ [Head]))" by simp
  moreover from assms(2) have "x \<in> set (tl (Head # xs @ [Head]))" by auto
  ultimately show ?thesis using c chain_next_prev chain_prev_next by blast
qed

lemma ring_length:
  assumes "ring h xs" and "set xs = Buf ` {..<n}"
  shows "length xs = n"
proof -
  from assms(1) have "distinct xs" by (simp add: ring_def)
  then have "length xs = card (set xs)" by (simp add: distinct_card)
  also have "\<dots> = card (Buf ` {..<n})" by (simp add: assms(2))
  also have "\<dots> = n" by (simp add: card_image inj_on_def)
  finally show ?thesis .
qed

lemma bget_nonneg:
  assumes "bget p d bn s = Some r" and "\<forall>x. 0 \<le> refcnt (mem s x)"
  shows "0 \<le> refcnt (mem (state_of r) x)"
  using assms
  by (auto simp: bget_def acquiresleep_def mem_upd split: option.splits if_splits)

lemma step_nonneg:
  assumes "step a s = Some s'" and "\<forall>x. 0 \<le> refcnt (mem s x)"
    and "case decrements a of None \<Rightarrow> True | Some b \<Rightarrow> 0 < refcnt (mem s b)"
  shows "0 \<le> refcnt (mem s' x)"
proof (cases a)
  case (Bget p d bn)
  with assms(1) obtain r where r: "bget p d bn s = Some r" "after r = Some s'"
    by (auto split: option.splits)
  from bget_nonneg [OF r(1) assms(2), of x] after_state_of [OF r(2)] show ?thesis by simp
next
  case (Bread p d bn)
  with assms(1) obtain r where "bread p d bn s = Some r" "after r = Some s'"
    by (auto split: option.splits)
  from bread_after [OF this] obtain r1 s1 where g: "bget p d bn s = Some r1" "after r1 = Some s1"
    and s': "s' = s1 \<or> (\<exists>b. s' = upd b (\<lambda>c. c\<lparr>valid := True\<rparr>) (virtio_disk_rw b False s1))"
    by blast
  from bget_nonneg [OF g(1) assms(2), of x] after_state_of [OF g(2)]
  have "0 \<le> refcnt (mem s1 x)" by simp
  with s' show ?thesis by (auto simp: mem_fill)
next
  case (Bwrite p b)
  with assms(1,2) show ?thesis
    by (auto simp: bwrite_def mem_virtio_write split: if_splits)
next
  case (Brelse p b)
  with assms show ?thesis
    by (auto simp: brelse_def Let_def releasesleep_def mem_upd move_to_head_fields
        split: if_splits)
next
  case (Bpin b)
  with assms(1) have "s' = bpin b s" by simp
  then show ?thesis
    using spec [OF assms(2), of x] by (auto simp: bpin_def mem_upd)
next
  case (Bunpin b)
  with assms show ?thesis by (auto simp: bunpin_def mem_upd)
qed

lemma run_nonneg:
  "run ops s = Some s' \<Longrightarrow> guarded ops s \<Longrightarrow> \<forall>x. 0 \<le> refcnt (mem s x) \<Longrightarrow>
   \<forall>x. 0 \<le> refcnt (mem s' x)"
proof (induction ops arbitrary: s)
  case Nil
  then show ?case by simp
next
  case (Cons a ops)
  from Cons.prems(1) obtain t where t: "step a s = Some t" "run ops t = Some s'"
    by (auto split: option.splits)
  from Cons.prems(2) t(1)
  have g: "case decrements a of None \<Rightarrow> True | Some b \<Rightarrow> 0 < refcnt (mem s b)" "guarded ops t"
    by simp_all
  have "\<forall>x. 0 \<le> refcnt (mem t x)"
    using step_nonneg [OF t(1) Cons.prems(3) g(1)] by simp
  from Cons.IH [OF t(2) g(2) this] show ?case .
qed

subsection \<open>The example states\<close>

lemma binit_body_frame:
  "valid (mem (binit_body b s) x) = valid (mem s x)"
  "data (mem (binit_body b s) x) = data (mem s x)"
  "disk (binit_body b s) = disk s"
  "xfers (binit_body b s) = xfers s"
  by (simp_all add: binit_body_def Let_def mem_upd disk_upd xfers_upd)

lemma binit_frame:
  "valid (mem (binit n s) x) = valid (mem s x) \<and> data (mem (binit n s) x) = data (mem s x) \<and>
   disk (binit n s) = disk s \<and> xfers (binit n s) = xfers s"
proof -
  let ?s0 = "upd Head (\<lambda>c. c\<lparr>next := Head\<rparr>) (upd Head (\<lambda>c. c\<lparr>prev := Head\<rparr>) s)"
  have "valid (mem (fold (\<lambda>i. binit_body (Buf i)) [0..<n] ?s0) x) = valid (mem s x) \<and>
    data (mem (fold (\<lambda>i. binit_body (Buf i)) [0..<n] ?s0) x) = data (mem s x) \<and>
    disk (fold (\<lambda>i. binit_body (Buf i)) [0..<n] ?s0) = disk s \<and>
    xfers (fold (\<lambda>i. binit_body (Buf i)) [0..<n] ?s0) = xfers s"
    by (induction n) (simp_all add: binit_body_frame mem_upd disk_upd xfers_upd)
  then show ?thesis by (simp add: binit_def Let_def)
qed

lemma cache3_ring: "ring (mem cache3) [Buf 2, Buf 1, Buf 0]"
proof -
  have "[0..<3] = [0, 1, 2]" by (simp add: upt_rec)
  with binit_ring [of 3 "boot 1024 zero_disk"] show ?thesis
    by (simp add: cache3_def)
qed

lemma cache3_fields:
  "dev (mem cache3 x) = 0" "blockno (mem cache3 x) = 0" "refcnt (mem cache3 x) = 0"
  "lock (mem cache3 x) = None" "valid (mem cache3 x) = False"
  "data (mem cache3 x) = replicate 1024 0" "xfers cache3 = []"
  "disk cache3 = zero_disk"
  using binit_fields [of 3 "boot 1024 zero_disk" x]
    binit_frame [of 3 "boot 1024 zero_disk" x]
  by (simp_all add: cache3_def boot_fields) (simp_all add: boot_def zero_buf_def)

lemma bget_cache3: "bget 3 1 7 cache3 = Some (Returns (Buf 0) held3)"
  by (simp add: bget_ring [OF cache3_ring] bound_to_def cache3_fields acquiresleep_def
      mem_upd held3_def)

lemma held3_fields:
  "dev (mem held3 x) = (if x = Buf 0 then 1 else 0)"
  "blockno (mem held3 x) = (if x = Buf 0 then 7 else 0)"
  "refcnt (mem held3 x) = (if x = Buf 0 then 1 else 0)"
  "lock (mem held3 x) = (if x = Buf 0 then Some 3 else None)"
  "valid (mem held3 x) = False"
  "next (mem held3 x) = next (mem cache3 x)" "prev (mem held3 x) = prev (mem cache3 x)"
  by (simp_all add: held3_def mem_upd cache3_fields)

lemma held3_ring: "ring (mem held3) [Buf 2, Buf 1, Buf 0]"
proof -
  have "ring (mem held3) [Buf 2, Buf 1, Buf 0] = ring (mem cache3) [Buf 2, Buf 1, Buf 0]"
    by (rule ring_cong) (simp_all add: held3_fields)
  with cache3_ring show ?thesis by blast
qed

section \<open>The claims\<close>

text \<open>
  \<^bold>\<open>C1\<close> (cache coherence of lookup). Take any state \<open>s0\<close> reached from the constructed
  cache, and a \<^verbatim>\<open>bget\<close> for \<open>(d, bn)\<close> that yields buffer \<open>b\<close>, by returning it or by
  leaving its caller asleep on its lock. Let any calls \<open>ops\<close> by any processes follow, as
  long as the reference count of \<open>b\<close> is positive whenever one of them starts. Then a
  second \<^verbatim>\<open>bget\<close> for \<open>(d, bn)\<close>, by any process \<open>q\<close>, finds the same buffer \<open>b\<close>: it
  increments the count of \<open>b\<close> by one and then takes or waits for the lock of \<open>b\<close>; the
  device, block number, valid flag and payload of \<open>b\<close>, every other buffer, the disk and
  the record of transfers are as they were.
\<close>

theorem bget_twice_same_slot:
  assumes "run ops0 (binit n (boot bsize dk)) = Some s0"
    and "bget p d bn s0 = Some r"
    and "r = Returns b s1 \<or> r = Sleeps b s1"
    and "run ops s1 = Some s2"
    and "held_during b ops s1"
  shows "bget q d bn s2 =
      Some (acquiresleep q b (upd b (\<lambda>c. c\<lparr>refcnt := refcnt c + 1\<rparr>) s2)) \<and>
    (\<exists>s3. after (acquiresleep q b (upd b (\<lambda>c. c\<lparr>refcnt := refcnt c + 1\<rparr>) s2)) = Some s3 \<and>
       refcnt (mem s3 b) = refcnt (mem s2 b) + 1 \<and>
       dev (mem s3 b) = dev (mem s2 b) \<and> blockno (mem s3 b) = blockno (mem s2 b) \<and>
       valid (mem s3 b) = valid (mem s2 b) \<and> data (mem s3 b) = data (mem s2 b) \<and>
       (\<forall>x. x \<noteq> b \<longrightarrow> mem s3 x = mem s2 x) \<and> disk s3 = disk s2 \<and> xfers s3 = xfers s2)"
proof -
  from reach_inv [OF assms(1)] obtain xs where i0: "inv_list n xs s0" by blast
  then have r0: "ring (mem s0) xs" by (simp add: inv_list_def)
  from assms(3) have a: "after r = Some s1" by auto
  from bget_inv [OF i0 assms(2) a] have i1: "inv_list n xs s1" by simp
  have f1: "find (\<lambda>x. key (mem s1) x = (d, bn)) xs = Some b"
  proof (cases "find (\<lambda>x. key (mem s0) x = (d, bn)) xs")
    case (Some c)
    let ?t = "upd c (\<lambda>c. c\<lparr>refcnt := refcnt c + 1\<rparr>) s0"
    from assms(2) Some have "r = acquiresleep p c ?t"
      by (simp add: bget_ring [OF r0] find_key_bound)
    with assms(3) acquiresleep_cases [of p c ?t b s1]
    have "b = c" and s1: "s1 = ?t \<or> s1 = upd c (\<lambda>c. c\<lparr>lock := Some p\<rparr>) ?t" by simp_all
    from s1 have "key (mem s1) x = key (mem s0) x" for x
      by (auto simp: key_def mem_upd)
    then have "key (mem s1) = key (mem s0)" by (simp add: fun_eq_iff)
    with Some \<open>b = c\<close> show ?thesis by simp
  next
    case None
    then have m: "\<forall>x\<in>set xs. key (mem s0) x \<noteq> (d, bn)" by (simp add: find_None_iff)
    note e = assms(2) [unfolded bget_ring [OF r0] find_key_bound None option.case]
    have "find (\<lambda>x. refcnt (mem s0 x) = 0) (rev xs) \<noteq> None"
    proof
      assume "find (\<lambda>x. refcnt (mem s0 x) = 0) (rev xs) = None"
      with e have "r = Panics ''bget:no buffers'' s0" by (simp del: find_None_iff)
      with assms(3) show False by simp
    qed
    then obtain c where c: "find (\<lambda>x. refcnt (mem s0 x) = 0) (rev xs) = Some c" by blast
    let ?t = "upd c (\<lambda>c. c\<lparr>dev := d, blockno := bn, valid := False, refcnt := 1\<rparr>) s0"
    from e c have "r = acquiresleep p c ?t" by simp
    with assms(3) acquiresleep_cases [of p c ?t b s1]
    have "b = c" and s1: "s1 = ?t \<or> s1 = upd c (\<lambda>c. c\<lparr>lock := Some p\<rparr>) ?t" by simp_all
    from find_SomeD [OF c] \<open>b = c\<close> have bx: "b \<in> set xs" by simp
    from s1 \<open>b = c\<close> have kb: "key (mem s1) b = (d, bn)"
      by (auto simp: key_def mem_upd)
    from s1 \<open>b = c\<close> have ko: "key (mem s1) x = key (mem s0) x" if "x \<noteq> b" for x
      using that by (auto simp: key_def mem_upd)
    have u: "\<forall>y\<in>set xs. key (mem s1) y = (d, bn) \<longrightarrow> y = b"
    proof (intro ballI impI)
      fix y assume y: "y \<in> set xs" "key (mem s1) y = (d, bn)"
      show "y = b"
      proof (rule ccontr)
        assume "y \<noteq> b"
        from ko [OF this] y(2) have "key (mem s0) y = (d, bn)" by simp
        with m y(1) show False by simp
      qed
    qed
    from find_unique [of b xs "\<lambda>x. key (mem s1) x = (d, bn)", OF bx kb u] show ?thesis .
  qed
  from run_keeps [OF i1 f1 assms(4,5)] obtain ys
    where i2: "inv_list n ys s2" and f2: "find (\<lambda>x. key (mem s2) x = (d, bn)) ys = Some b"
    by blast
  from i2 have r2: "ring (mem s2) ys" by (simp add: inv_list_def)
  from f2 have "bget q d bn s2 =
      Some (acquiresleep q b (upd b (\<lambda>c. c\<lparr>refcnt := refcnt c + 1\<rparr>) s2))"
    by (simp add: bget_ring [OF r2] find_key_bound)
  then show ?thesis
    by (simp add: acquiresleep_def upd_def)
qed

theorem bget_twice_same_slot_witness:
  "bget 4 1 7 (bpin (Buf 0) held3) =
     Some (Sleeps (Buf 0) (upd (Buf 0) (\<lambda>c. c\<lparr>refcnt := refcnt c + 1\<rparr>) (bpin (Buf 0) held3)))"
proof -
  have "run [] (binit 3 (boot 1024 zero_disk)) = Some cache3"
    by (simp add: cache3_def)
  moreover note bget_cache3
  moreover have "run [Bpin (Buf 0)] held3 = Some (bpin (Buf 0) held3)" by simp
  moreover have "held_during (Buf 0) [Bpin (Buf 0)] held3" by (simp add: held3_fields)
  ultimately have "bget 4 1 7 (bpin (Buf 0) held3) =
      Some (acquiresleep 4 (Buf 0)
        (upd (Buf 0) (\<lambda>c. c\<lparr>refcnt := refcnt c + 1\<rparr>) (bpin (Buf 0) held3)))"
    using bget_twice_same_slot [of "[]" 3 1024 zero_disk cache3 3 1 7
        "Returns (Buf 0) held3" "Buf 0" held3 "[Bpin (Buf 0)]" "bpin (Buf 0) held3" 4]
    by simp
  then show ?thesis
    by (simp add: acquiresleep_def bpin_def mem_upd held3_fields)
qed

text \<open>
  \<^bold>\<open>C2\<close> (eviction policy). In a state whose list \<open>xs\<close> is well formed, if no buffer of
  the list is bound to \<open>(d, bn)\<close>, buffer \<open>b\<close> has reference count 0 and every buffer
  \<open>us\<close> behind it in the list (nearer the least recently used end) has a count other
  than 0, then \<^verbatim>\<open>bget\<close> takes \<open>b\<close>: it sets its device and block number to \<open>d\<close> and
  \<open>bn\<close>, its valid flag to false and its count to 1, and then takes or waits for its
  lock.
\<close>

theorem bget_evicts_lru:
  assumes "ring (mem s) xs"
    and "\<forall>x\<in>set xs. \<not> bound_to (mem s) d bn x"
    and "xs = vs @ b # us"
    and "refcnt (mem s b) = 0"
    and "\<forall>u\<in>set us. refcnt (mem s u) \<noteq> 0"
  shows "bget p d bn s =
    Some (acquiresleep p b
      (upd b (\<lambda>c. c\<lparr>dev := d, blockno := bn, valid := False, refcnt := 1\<rparr>) s))"
proof -
  from assms(2) have "find (bound_to (mem s) d bn) xs = None"
    by (simp add: find_None_iff)
  moreover from assms(3-5) have "find (\<lambda>x. refcnt (mem s x) = 0) (rev xs) = Some b"
    by (simp only: find_rev_split [of "\<lambda>x. refcnt (mem s x) = 0"])
  ultimately show ?thesis by (simp add: bget_ring [OF assms(1)])
qed

theorem bget_evicts_lru_witness:
  "bget 3 1 7 cache3 =
     Some (acquiresleep 3 (Buf 0)
       (upd (Buf 0) (\<lambda>c. c\<lparr>dev := 1, blockno := 7, valid := False, refcnt := 1\<rparr>) cache3))"
  using bget_evicts_lru [OF cache3_ring, of 1 7 "[Buf 2, Buf 1]" "Buf 0" "[]" 3]
  by (simp add: bound_to_def cache3_fields)

text \<open>
  \<^bold>\<open>C3\<close> (read postcondition). On a well-formed list \<^verbatim>\<open>bget\<close> ends, and the disk and the
  record of transfers are as before it, however it ends. When it returns buffer \<open>b\<close> in
  state \<open>s1\<close>, \<^verbatim>\<open>bread\<close> returns \<open>b\<close> too, bound to \<open>(d, bn)\<close>, valid and locked by the
  caller; it has added one transfer, a read of \<open>b\<close>, exactly when \<open>b\<close> was not valid in
  \<open>s1\<close>, and the payload then is the block of the disk. When \<^verbatim>\<open>bget\<close> sleeps or panics,
  so does \<^verbatim>\<open>bread\<close>, in the same state.
\<close>

theorem bread_post:
  assumes "ring (mem s) xs"
  shows "\<exists>r. bget p d bn s = Some r \<and> xfers (state_of r) = xfers s \<and> disk (state_of r) = disk s \<and>
    (case r of
       Returns b s1 \<Rightarrow>
         (\<exists>s2. bread p d bn s = Some (Returns b s2) \<and>
            bound_to (mem s2) d bn b \<and> valid (mem s2 b) \<and> lock (mem s2 b) = Some p \<and>
            xfers s2 = (if valid (mem s1 b) then xfers s else xfers s @ [(b, False)]) \<and>
            data (mem s2 b) = (if valid (mem s1 b) then data (mem s1 b) else disk s (d, bn)))
     | Sleeps b s1 \<Rightarrow> bread p d bn s = Some r
     | Panics m s1 \<Rightarrow> bread p d bn s = Some r)"
proof (cases "find (bound_to (mem s) d bn) xs")
  case (Some b)
  from find_SomeD [OF Some] have "bound_to (mem s) d bn b" by simp
  with Some show ?thesis
    by (simp add: bget_ring [OF assms] bread_def acquiresleep_def upd_def bound_to_def
        virtio_disk_rw_def Let_def)
next
  case None
  show ?thesis
  proof (cases "find (\<lambda>x. refcnt (mem s x) = 0) (rev xs)")
    case (Some b)
    with None show ?thesis
      by (simp add: bget_ring [OF assms] bread_def acquiresleep_def upd_def bound_to_def
          virtio_disk_rw_def Let_def)
  next
    case N: None
    with None show ?thesis by (simp add: bget_ring [OF assms] bread_def)
  qed
qed

theorem bread_post_witness:
  "\<exists>s2. bread 3 1 7 cache3 = Some (Returns (Buf 0) s2) \<and> valid (mem s2 (Buf 0)) \<and>
     bound_to (mem s2) 1 7 (Buf 0) \<and> xfers s2 = [(Buf 0, False)] \<and>
     data (mem s2 (Buf 0)) = replicate 1024 0"
  using bread_post [OF cache3_ring, of 3 1 7]
  by (auto simp: bget_cache3 held3_fields cache3_fields zero_disk_def)

text \<open>
  \<^bold>\<open>C4\<close> (release). For a buffer \<open>b\<close> of a well-formed list \<open>xs\<close> whose lock the caller
  holds, \<^verbatim>\<open>brelse\<close> returns; the lock of \<open>b\<close> is free and its count is one less. If the
  new count is 0 the list is \<open>b\<close> followed by the other buffers in their old order;
  otherwise the list is \<open>xs\<close> and no \<^verbatim>\<open>next\<close> or \<^verbatim>\<open>prev\<close> field has changed. Nothing
  else changes: identities, valid flags, payloads, the counts and locks of the other
  buffers, the disk, the record of transfers.
\<close>

theorem brelse_semantics:
  assumes "ring (mem s) xs" and "b \<in> set xs" and "holdingsleep p b s"
  shows "\<exists>s'. brelse p b s = Returns () s' \<and>
    lock (mem s' b) = None \<and> refcnt (mem s' b) = refcnt (mem s b) - 1 \<and>
    (if refcnt (mem s b) - 1 = 0 then ring (mem s') (b # remove1 b xs)
     else ring (mem s') xs \<and>
       (\<forall>x. next (mem s' x) = next (mem s x) \<and> prev (mem s' x) = prev (mem s x))) \<and>
    (\<forall>x. dev (mem s' x) = dev (mem s x) \<and> blockno (mem s' x) = blockno (mem s x) \<and>
         valid (mem s' x) = valid (mem s x) \<and> data (mem s' x) = data (mem s x)) \<and>
    (\<forall>x. x \<noteq> b \<longrightarrow> refcnt (mem s' x) = refcnt (mem s x) \<and> lock (mem s' x) = lock (mem s x)) \<and>
    disk s' = disk s \<and> xfers s' = xfers s"
proof -
  let ?s2 = "upd b (\<lambda>c. c\<lparr>refcnt := refcnt c - 1\<rparr>) (releasesleep b s)"
  have l2: "next (mem ?s2 x) = next (mem s x)" "prev (mem ?s2 x) = prev (mem s x)" for x
    by (simp_all add: releasesleep_def mem_upd)
  from assms(1) have r2: "ring (mem ?s2) xs" by (simp add: ring_cong [of "mem ?s2" "mem s", OF l2])
  have e: "brelse p b s = Returns () (if refcnt (mem ?s2 b) = 0 then move_to_head b ?s2 else ?s2)"
    using assms(3) by (simp add: brelse_def Let_def)
  have c: "refcnt (mem ?s2 b) = refcnt (mem s b) - 1" by (simp add: releasesleep_def mem_upd)
  show ?thesis
  proof (cases "refcnt (mem s b) - 1 = 0")
    case True
    with e c have "brelse p b s = Returns () (move_to_head b ?s2)" by simp
    moreover have "ring (mem (move_to_head b ?s2)) (b # remove1 b xs)"
      by (rule move_to_head_ring [OF r2 assms(2)])
    ultimately show ?thesis using True
      by (simp add: move_to_head_fields releasesleep_def mem_upd disk_upd xfers_upd)
  next
    case False
    with e c have "brelse p b s = Returns () ?s2" by simp
    with False r2 show ?thesis
      by (simp add: releasesleep_def mem_upd disk_upd xfers_upd)
  qed
qed

theorem brelse_semantics_witness:
  "\<exists>s'. brelse 3 (Buf 0) held3 = Returns () s' \<and> lock (mem s' (Buf 0)) = None \<and>
     refcnt (mem s' (Buf 0)) = 0 \<and> ring (mem s') [Buf 0, Buf 2, Buf 1]"
  using brelse_semantics [OF held3_ring, of "Buf 0" 3]
  by (auto simp: holdingsleep_def held3_fields)

text \<open>
  \<^bold>\<open>C5\<close> (capacity exhaustion). On a well-formed list, if no buffer is bound to
  \<open>(d, bn)\<close> and no buffer has reference count 0, \<^verbatim>\<open>bget\<close> neither returns nor waits: it
  ends in \<^verbatim>\<open>panic\<close> with the message \<^verbatim>\<open>bget:no buffers\<close>, and the state at the panic is the state it was
  called in.
\<close>

theorem bget_exhausted_panics:
  assumes "ring (mem s) xs"
    and "\<forall>x\<in>set xs. \<not> bound_to (mem s) d bn x"
    and "\<forall>x\<in>set xs. refcnt (mem s x) \<noteq> 0"
  shows "bget p d bn s = Some (Panics ''bget:no buffers'' s)"
proof -
  from assms(2) have "find (bound_to (mem s) d bn) xs = None"
    by (simp add: find_None_iff)
  moreover from assms(3) have "find (\<lambda>x. refcnt (mem s x) = 0) (rev xs) = None"
    by (simp add: find_None_iff)
  ultimately show ?thesis by (simp add: bget_ring [OF assms(1)])
qed

theorem bget_exhausted_panics_witness:
  "bget 3 1 7 (bpin (Buf 0) (bpin (Buf 1) (bpin (Buf 2) cache3))) =
     Some (Panics ''bget:no buffers'' (bpin (Buf 0) (bpin (Buf 1) (bpin (Buf 2) cache3))))"
proof -
  let ?s = "bpin (Buf 0) (bpin (Buf 1) (bpin (Buf 2) cache3))"
  have "ring (mem ?s) [Buf 2, Buf 1, Buf 0] = ring (mem cache3) [Buf 2, Buf 1, Buf 0]"
    by (rule ring_cong) (simp_all add: bpin_def mem_upd)
  with cache3_ring have "ring (mem ?s) [Buf 2, Buf 1, Buf 0]" by blast
  from bget_exhausted_panics [OF this, of 1 7 3] show ?thesis
    by (simp add: bound_to_def bpin_def mem_upd cache3_fields)
qed

text \<open>
  \<^bold>\<open>C6\<close> (no duplicate binding), as the code has it. In every state reached from the
  constructed cache by calls of \<^verbatim>\<open>bget\<close>, \<^verbatim>\<open>bread\<close>, \<^verbatim>\<open>bwrite\<close>, \<^verbatim>\<open>brelse\<close>,
  \<^verbatim>\<open>bpin\<close> and \<^verbatim>\<open>bunpin\<close>, two different buffers of the array that are bound to the same
  pair are bound to \<open>(0, 0)\<close>: at most one buffer is bound to any other pair.
\<close>

theorem duplicates_only_initial:
  assumes "run ops (binit n (boot bsize dk)) = Some s"
    and "i < n" and "j < n" and "i \<noteq> j"
    and "dev (mem s (Buf i)) = dev (mem s (Buf j))"
    and "blockno (mem s (Buf i)) = blockno (mem s (Buf j))"
  shows "dev (mem s (Buf i)) = 0 \<and> blockno (mem s (Buf i)) = 0"
proof -
  from reach_inv [OF assms(1)] obtain xs where "inv_list n xs s" by blast
  then have m: "set xs = Buf ` {..<n}"
    and d: "\<forall>x\<in>set xs. \<forall>y\<in>set xs. x \<noteq> y \<and> key (mem s) x = key (mem s) y \<longrightarrow> key (mem s) x = (0, 0)"
    by (simp_all add: inv_list_def)
  from m assms(2,3) have "Buf i \<in> set xs" "Buf j \<in> set xs" by auto
  moreover from assms(4) have "Buf i \<noteq> Buf j" by simp
  moreover from assms(5,6) have "key (mem s) (Buf i) = key (mem s) (Buf j)" by (simp add: key_def)
  ultimately have "key (mem s) (Buf i) = (0, 0)" using d by blast
  then show ?thesis by (simp add: key_def)
qed

theorem duplicates_only_initial_witness:
  "dev (mem held3 (Buf 1)) = 0 \<and> blockno (mem held3 (Buf 1)) = 0"
proof -
  have "run [Bget 3 1 7] (binit 3 (boot 1024 zero_disk)) = Some held3"
    by (simp add: cache3_def [symmetric] bget_cache3)
  from duplicates_only_initial [OF this, of 1 2] show ?thesis
    by (simp add: held3_fields)
qed

text \<open>
  The claim as the spec states it includes the identity the buffers have right after
  construction, and fails there: \<^verbatim>\<open>binit\<close> leaves \<^verbatim>\<open>dev\<close> and \<^verbatim>\<open>blockno\<close> as static
  storage has them, so \<^verbatim>\<open>bcache.buf[0]\<close> and \<^verbatim>\<open>bcache.buf[1]\<close> are both bound to
  \<open>(0, 0)\<close>.
\<close>

theorem initial_slots_share_identity:
  "run [] (binit 3 (boot 1024 zero_disk)) = Some cache3 \<and>
   Buf 0 \<noteq> Buf 1 \<and> bound_to (mem cache3) 0 0 (Buf 0) \<and> bound_to (mem cache3) 0 0 (Buf 1)"
  by (simp add: cache3_def [symmetric] bound_to_def cache3_fields)

text \<open>
  \<^bold>\<open>C7\<close> (fixed membership). In every state reached from the constructed cache of \<open>n\<close>
  buffers, the list between the sentinel and itself is well formed, holds exactly the
  \<open>n\<close> buffers of the array, each once, and on the sentinel and on every buffer of the
  list \<^verbatim>\<open>next\<close> and \<^verbatim>\<open>prev\<close> are inverse to each other.
\<close>

theorem list_membership_fixed:
  assumes "run ops (binit n (boot bsize dk)) = Some s"
  shows "\<exists>xs. ring (mem s) xs \<and> set xs = Buf ` {..<n} \<and> length xs = n \<and>
    (\<forall>x\<in>set (Head # xs).
       prev (mem s (next (mem s x))) = x \<and> next (mem s (prev (mem s x))) = x)"
proof -
  from reach_inv [OF assms] obtain xs where "inv_list n xs s" by blast
  then have r: "ring (mem s) xs" and m: "set xs = Buf ` {..<n}" by (simp_all add: inv_list_def)
  from r m have "length xs = n" by (rule ring_length)
  with r m ring_inverse [OF r] show ?thesis by blast
qed

theorem list_membership_fixed_witness:
  "\<exists>s xs. run [Bget 3 1 7, Brelse 3 (Buf 0)] cache3 = Some s \<and> ring (mem s) xs \<and>
     set xs = Buf ` {..<3} \<and> length xs = 3"
proof -
  have "\<exists>s. run [Bget 3 1 7, Brelse 3 (Buf 0)] (binit 3 (boot 1024 zero_disk)) = Some s"
    by (simp add: cache3_def [symmetric] bget_cache3 brelse_def holdingsleep_def held3_fields Let_def)
  then obtain s
    where s: "run [Bget 3 1 7, Brelse 3 (Buf 0)] (binit 3 (boot 1024 zero_disk)) = Some s"
    by blast
  from list_membership_fixed [OF s] s show ?thesis
    by (auto simp: cache3_def)
qed

text \<open>
  \<^bold>\<open>C8\<close> (reference counts). In every state reached from the constructed cache by a
  sequence of calls in which \<^verbatim>\<open>brelse\<close> and \<^verbatim>\<open>bunpin\<close> are only called on buffers whose
  count is positive, no count is negative.
\<close>

theorem refcnt_never_negative:
  assumes "run ops (binit n (boot bsize dk)) = Some s"
    and "guarded ops (binit n (boot bsize dk))"
  shows "0 \<le> refcnt (mem s x)"
proof -
  have "\<forall>x. 0 \<le> refcnt (mem (binit n (boot bsize dk)) x)"
    using binit_fields [of n "boot bsize dk"] by (simp add: boot_fields)
  from run_nonneg [OF assms this] show ?thesis by simp
qed

theorem refcnt_never_negative_witness:
  "0 \<le> refcnt (mem (bunpin (Buf 0) (bpin (Buf 0) cache3)) (Buf 0))"
proof -
  have "run [Bpin (Buf 0), Bunpin (Buf 0)] (binit 3 (boot 1024 zero_disk)) =
      Some (bunpin (Buf 0) (bpin (Buf 0) cache3))"
    by (simp add: cache3_def)
  moreover have "guarded [Bpin (Buf 0), Bunpin (Buf 0)] (binit 3 (boot 1024 zero_disk))"
    by (simp add: cache3_def [symmetric] bpin_def mem_upd cache3_fields)
  ultimately show ?thesis by (rule refcnt_never_negative)
qed

text \<open>
  \<^bold>\<open>C9\<close> (protocol violations). Called by a process that does not hold the lock of
  \<open>b\<close>, \<^verbatim>\<open>bwrite\<close> and \<^verbatim>\<open>brelse\<close> end in \<^verbatim>\<open>panic\<close> with the state as it was: no
  transfer, no change. Called by the holder of the lock, \<^verbatim>\<open>bwrite\<close> returns after the
  transfer and \<^verbatim>\<open>brelse\<close> returns.
\<close>

theorem lock_checks:
  "(\<not> holdingsleep p b s \<longrightarrow>
      bwrite p b s = Panics ''bwrite'' s \<and> brelse p b s = Panics ''brelse'' s) \<and>
   (holdingsleep p b s \<longrightarrow>
      bwrite p b s = Returns () (virtio_disk_rw b True s) \<and>
      (\<exists>s'. brelse p b s = Returns () s'))"
  by (simp add: bwrite_def brelse_def Let_def)

theorem lock_checks_witness:
  "\<not> holdingsleep 3 (Buf 0) cache3 \<and>
   bwrite 3 (Buf 0) cache3 = Panics ''bwrite'' cache3 \<and>
   brelse 3 (Buf 0) cache3 = Panics ''brelse'' cache3 \<and>
   holdingsleep 3 (Buf 0) held3 \<and>
   bwrite 3 (Buf 0) held3 = Returns () (virtio_disk_rw (Buf 0) True held3) \<and>
   (\<exists>s'. brelse 3 (Buf 0) held3 = Returns () s')"
  using lock_checks [of 3 "Buf 0" cache3] lock_checks [of 3 "Buf 0" held3]
  by (simp add: holdingsleep_def cache3_fields held3_fields)

text \<open>
  \<^bold>\<open>C10\<close> (the list order changes only on release to zero). A call that leaves a
  next state and is not a \<^verbatim>\<open>brelse\<close> of a buffer whose count is 1 changes no \<^verbatim>\<open>next\<close>
  and no \<^verbatim>\<open>prev\<close> field: \<^verbatim>\<open>bget\<close> on a hit and on a rebinding, \<^verbatim>\<open>bread\<close>, \<^verbatim>\<open>bwrite\<close>,
  \<^verbatim>\<open>bpin\<close>, \<^verbatim>\<open>bunpin\<close>, and \<^verbatim>\<open>brelse\<close> when the count stays above or goes below zero.
\<close>

theorem only_release_to_zero_reorders:
  assumes "step a s = Some s'"
    and "\<forall>p b. a = Brelse p b \<longrightarrow> refcnt (mem s b) \<noteq> 1"
  shows "next (mem s' x) = next (mem s x) \<and> prev (mem s' x) = prev (mem s x)"
proof (cases a)
  case (Bget p d bn)
  with assms(1) obtain r where r: "bget p d bn s = Some r" "after r = Some s'"
    by (auto split: option.splits)
  from bget_links [OF r(1), of x] after_state_of [OF r(2)] show ?thesis by simp
next
  case (Bread p d bn)
  with assms(1) obtain r where r: "bread p d bn s = Some r" "after r = Some s'"
    by (auto split: option.splits)
  from bread_links [OF r(1), of x] after_state_of [OF r(2)] show ?thesis by simp
next
  case (Bwrite p b)
  with assms(1) show ?thesis
    by (auto simp: bwrite_def mem_virtio_write split: if_splits)
next
  case (Brelse p b)
  with assms show ?thesis
    by (auto simp: brelse_def Let_def releasesleep_def mem_upd split: if_splits)
next
  case (Bpin b)
  with assms(1) show ?thesis by (auto simp: bpin_def mem_upd)
next
  case (Bunpin b)
  with assms(1) show ?thesis by (auto simp: bunpin_def mem_upd)
qed

theorem only_release_to_zero_reorders_witness:
  "step (Bget 3 1 7) cache3 = Some held3 \<and>
   next (mem held3 (Buf 0)) = next (mem cache3 (Buf 0)) \<and>
   prev (mem held3 (Buf 0)) = prev (mem cache3 (Buf 0))"
proof -
  have s: "step (Bget 3 1 7) cache3 = Some held3" by (simp add: bget_cache3)
  from only_release_to_zero_reorders [OF s, of "Buf 0"] s show ?thesis by simp
qed

end
